theory Spec2Isabelle
  imports Main "HOL-Library.Word"
begin

unbundle bit_operations_syntax

section \<open>Python values used by the client\<close>

text \<open>
  A Python \<open>str\<close> is a sequence of code points, a \<open>bytes\<close> object a sequence of
  octets. Literals of the source are written with \<open>str\<close>.
\<close>

type_synonym pystr = "nat list"
type_synonym byte = "8 word"
type_synonym bytes = "byte list"

definition str :: "string \<Rightarrow> pystr" where
  "str s = map of_char s"

text \<open>A \<open>bytes\<close> literal of ASCII characters.\<close>

definition bytes_lit :: "string \<Rightarrow> bytes" where
  "bytes_lit s = map (\<lambda>ch. of_nat (of_char ch)) s"

datatype exn =
    CancelledError
  | OSError
  | IncompleteReadError bytes
  | LimitOverrunError
  | UnicodeDecodeError
  | UnicodeEncodeError
  | AttributeError
  | ValueError
  | ConnectionResetError

text \<open>
  The outcome of running a coroutine against a finite schedule: it returned a value, it
  raised, or it is still suspended at an \<open>await\<close> when the schedule ends.
\<close>

datatype 'a outcome = Returned 'a | Raised exn | Pending

subsection \<open>\<open>str.strip()\<close>\<close>

text \<open>The code points for which \<open>str.isspace()\<close> holds; \<open>strip()\<close> removes them at both ends.\<close>

definition isspace :: "nat \<Rightarrow> bool" where
  "isspace c \<longleftrightarrow>
     (9 \<le> c \<and> c \<le> 13) \<or> (28 \<le> c \<and> c \<le> 32) \<or> c = 133 \<or> c = 160 \<or> c = 5760 \<or>
     (8192 \<le> c \<and> c \<le> 8202) \<or> c = 8232 \<or> c = 8233 \<or> c = 8239 \<or> c = 8287 \<or> c = 12288"

definition strip :: "pystr \<Rightarrow> pystr" where
  "strip s = rev (dropWhile isspace (rev (dropWhile isspace s)))"

subsection \<open>\<open>str.encode()\<close>: strict UTF-8\<close>

definition encode_cp :: "nat \<Rightarrow> bytes option" where
  "encode_cp c =
     (if c < 0x80 then Some [of_nat c]
      else if c < 0x800 then Some [of_nat (0xC0 + c div 64), of_nat (0x80 + c mod 64)]
      else if 0xD800 \<le> c \<and> c \<le> 0xDFFF then None
      else if c < 0x10000 then
        Some [of_nat (0xE0 + c div 4096), of_nat (0x80 + c div 64 mod 64),
              of_nat (0x80 + c mod 64)]
      else if c < 0x110000 then
        Some [of_nat (0xF0 + c div 262144), of_nat (0x80 + c div 4096 mod 64),
              of_nat (0x80 + c div 64 mod 64), of_nat (0x80 + c mod 64)]
      else None)"

fun encode :: "pystr \<Rightarrow> bytes option" where
  "encode [] = Some []"
| "encode (c # cs) =
     (case encode_cp c of
        None \<Rightarrow> None
      | Some bs \<Rightarrow> (case encode cs of None \<Rightarrow> None | Some rest \<Rightarrow> Some (bs @ rest)))"

subsection \<open>\<open>bytes.decode()\<close>: strict UTF-8\<close>

text \<open>
  One code point is read from the front of the bytes. The second byte of a sequence is
  confined by the first one, which excludes overlong forms, surrogates and values above
  \<open>0x10FFFF\<close>; every later byte is a continuation byte.
\<close>

definition continuation :: "byte \<Rightarrow> bool" where
  "continuation b \<longleftrightarrow> 0x80 \<le> b \<and> b \<le> 0xBF"

definition second_ok :: "byte \<Rightarrow> byte \<Rightarrow> bool" where
  "second_ok b0 b1 \<longleftrightarrow>
     (if b0 = 0xE0 then 0xA0 \<le> b1 \<and> b1 \<le> 0xBF
      else if b0 = 0xED then 0x80 \<le> b1 \<and> b1 \<le> 0x9F
      else if b0 = 0xF0 then 0x90 \<le> b1 \<and> b1 \<le> 0xBF
      else if b0 = 0xF4 then 0x80 \<le> b1 \<and> b1 \<le> 0x8F
      else continuation b1)"

definition decode_cp :: "bytes \<Rightarrow> (nat \<times> bytes) option" where
  "decode_cp bs =
     (case bs of
        [] \<Rightarrow> None
      | b0 # r0 \<Rightarrow>
          if b0 < 0x80 then Some (unat b0, r0)
          else if 0xC2 \<le> b0 \<and> b0 \<le> 0xDF then
            (case r0 of
               b1 # r1 \<Rightarrow>
                 if continuation b1
                 then Some ((unat b0 - 0xC0) * 64 + (unat b1 - 0x80), r1) else None
             | _ \<Rightarrow> None)
          else if 0xE0 \<le> b0 \<and> b0 \<le> 0xEF then
            (case r0 of
               b1 # b2 # r2 \<Rightarrow>
                 if second_ok b0 b1 \<and> continuation b2
                 then Some ((unat b0 - 0xE0) * 4096 + (unat b1 - 0x80) * 64 + (unat b2 - 0x80), r2)
                 else None
             | _ \<Rightarrow> None)
          else if 0xF0 \<le> b0 \<and> b0 \<le> 0xF4 then
            (case r0 of
               b1 # b2 # b3 # r3 \<Rightarrow>
                 if second_ok b0 b1 \<and> continuation b2 \<and> continuation b3
                 then Some ((unat b0 - 0xF0) * 262144 + (unat b1 - 0x80) * 4096
                            + (unat b2 - 0x80) * 64 + (unat b3 - 0x80), r3)
                 else None
             | _ \<Rightarrow> None)
          else None)"

lemma decode_cp_shorter: "decode_cp bs = Some (c, rest) \<Longrightarrow> length rest < length bs"
  by (auto simp: decode_cp_def split: list.splits if_splits)

function decode :: "bytes \<Rightarrow> pystr option" where
  "decode bs =
     (if bs = [] then Some []
      else case decode_cp bs of
             None \<Rightarrow> None
           | Some (c, rest) \<Rightarrow> (case decode rest of None \<Rightarrow> None | Some cs \<Rightarrow> Some (c # cs)))"
  by pat_completeness auto
termination
  by (relation "measure length") (auto dest: decode_cp_shorter)

declare decode.simps [simp del]

subsection \<open>Substring test, \<open>bytes.find\<close>, decimal numerals\<close>

text \<open>\<open>sub in s\<close> on strings: \<open>sub\<close> occurs in \<open>s\<close> as a contiguous run.\<close>

fun contains :: "pystr \<Rightarrow> pystr \<Rightarrow> bool" where
  "contains [] sub = (sub = [])"
| "contains (x # xs) sub = (take (length sub) (x # xs) = sub \<or> contains xs sub)"

text \<open>\<open>buf.find(sep)\<close>: the least index at which \<open>sep\<close> occurs, if any.\<close>

fun find :: "bytes \<Rightarrow> bytes \<Rightarrow> nat option" where
  "find [] sep = (if sep = [] then Some 0 else None)"
| "find (b # bs) sep =
     (if take (length sep) (b # bs) = sep then Some 0 else map_option Suc (find bs sep))"

text \<open>How an f-string renders an integer.\<close>

fun digits :: "nat \<Rightarrow> pystr" where
  "digits n = (if n < 10 then [48 + n] else digits (n div 10) @ [48 + n mod 10])"

declare digits.simps [simp del]

definition str_of_int :: "int \<Rightarrow> pystr" where
  "str_of_int i = (if i < 0 then str ''-'' @ digits (nat (- i)) else digits (nat i))"

section \<open>The client object\<close>

text \<open>
  The two halves of an asyncio stream, as far as the client looks at them: the reader's
  buffer, end-of-file flag and limit, and whether the writer's transport is closing,
  whether it has closed (the connection is lost and \<open>wait_closed\<close> no longer waits),
  and whether it has paused writing because its buffer is full (\<open>drain\<close> then waits).
\<close>

record StreamReader =
  buffer :: bytes
  eof :: bool
  limit :: nat

record StreamWriter =
  closing :: bool
  closed :: bool
  paused :: bool

text \<open>
  Everything the client does to the outside is recorded, in order, in \<open>effects\<close>:
  insertions into the \<open>messages\<close> widget, scrolling, sounds, writer calls, printed
  tracebacks, scheduled send tasks and the scheduled clearing of the entry widget. The
  progress messages that \<open>send\<close>, \<open>recv\<close> and \<open>_entry_binding\<close> print to the
  console are left out.
\<close>

datatype effect =
    Insert pystr
  | See
  | Playsound pystr
  | WriterWrite bytes
  | WriterClose
  | PrintExc exn
  | CreateSendTask bytes
  | AfterIdleEntryDelete

record Client =
  host :: pystr
  port :: int
  name :: pystr
  mention_str :: pystr
  reader :: "StreamReader option"
  writer :: "StreamWriter option"
  entry :: pystr
  focused :: bool
  effects :: "effect list"

definition MESSAGE_DELIMITER :: bytes where
  "MESSAGE_DELIMITER = [0x0A]"

text \<open>\<open>Client.__init__\<close>: the options, \<open>mention_str\<close> (an at sign followed by the name), reader and writer absent.\<close>

definition init :: "pystr \<Rightarrow> int \<Rightarrow> pystr \<Rightarrow> Client" where
  "init h p n =
     \<lparr>host = h, port = p, name = n, mention_str = str ''@'' @ n,
      reader = None, writer = None, entry = [], focused = False, effects = []\<rparr>"

definition emit :: "effect \<Rightarrow> Client \<Rightarrow> Client" where
  "emit e c = c\<lparr>effects := effects c @ [e]\<rparr>"

text \<open>\<open>Client.log\<close>: insert \<open>message + '\n'\<close> at the end, and scroll there when important.\<close>

definition log :: "pystr \<Rightarrow> bool \<Rightarrow> Client \<Rightarrow> Client" where
  "log message important c =
     (let c1 = emit (Insert (message @ str ''\<newline>'')) c
      in if important then emit See c1 else c1)"

text \<open>\<open>writer.is_closing()\<close> and \<open>writer.close()\<close> on a writer that is present.\<close>

definition writer_close :: "Client \<Rightarrow> Client" where
  "writer_close c =
     emit WriterClose (c\<lparr>writer := map_option (\<lambda>w. w\<lparr>closing := True\<rparr>) (writer c)\<rparr>)"

section \<open>\<open>Client._entry_binding\<close> and \<open>Client.send\<close>\<close>

text \<open>
  The handler of the Return key. \<open>entry c\<close> is what \<open>self.entry.get("1.0", "end")\<close>
  returns. The handler returns the string \<open>"break"\<close> on both paths, unless encoding raises.
\<close>

definition entry_binding :: "Client \<Rightarrow> Client \<times> pystr outcome" where
  "entry_binding c =
     (if (case writer c of None \<Rightarrow> True | Some w \<Rightarrow> closing w) then (c, Returned (str ''break''))
      else
        let message = strip (entry c) in
        if message \<noteq> [] then
          (case encode (name c @ str '': '' @ message @ str ''\<newline>'') of
             None \<Rightarrow> (c, Raised UnicodeEncodeError)
           | Some data \<Rightarrow>
               (emit AfterIdleEntryDelete (emit (CreateSendTask data) c),
                Returned (str ''break'')))
        else (emit AfterIdleEntryDelete c, Returned (str ''break'')))"

text \<open>
  \<open>Client.send\<close>: hand the data to the writer, then wait in \<open>drain\<close>. A writer that is
  absent raises on the attribute access. A transport that is closing drops what is
  written to it, and \<open>drain\<close> then raises \<open>ConnectionResetError\<close>. A live transport
  accepts the data; \<open>drain\<close> then returns, unless the transport has paused writing, in
  which case the task stays suspended in \<open>drain\<close>.
\<close>

definition send :: "bytes \<Rightarrow> Client \<Rightarrow> Client \<times> unit outcome" where
  "send data c =
     (case writer c of
        None \<Rightarrow> (c, Raised AttributeError)
      | Some w \<Rightarrow>
          if closing w then (c, Raised ConnectionResetError)
          else (emit (WriterWrite data) c, if paused w then Pending else Returned ()))"

text \<open>The data of the send tasks scheduled, in order.\<close>

fun scheduled :: "effect list \<Rightarrow> bytes list" where
  "scheduled [] = []"
| "scheduled (CreateSendTask bs # es) = bs # scheduled es"
| "scheduled (_ # es) = scheduled es"

section \<open>The streams and the event loop\<close>

text \<open>
  \<open>StreamReader.at_eof\<close> and \<open>StreamReader.readuntil\<close> of asyncio. \<open>readuntil\<close> is one
  pass of its loop, up to the point where it would wait for more data: it returns the
  bytes up to and including the first separator and removes them from the buffer, or it
  raises, or it has to wait (\<open>Pending\<close>) and is run again when the task is resumed.
\<close>

definition at_eof :: "StreamReader \<Rightarrow> bool" where
  "at_eof r \<longleftrightarrow> eof r \<and> buffer r = []"

definition readuntil :: "bytes \<Rightarrow> StreamReader \<Rightarrow> StreamReader \<times> bytes outcome" where
  "readuntil separator r =
     (if separator = [] then (r, Raised ValueError)
      else case find (buffer r) separator of
        Some isep \<Rightarrow>
          if isep > limit r then (r, Raised LimitOverrunError)
          else (r\<lparr>buffer := drop (isep + length separator) (buffer r)\<rparr>,
                Returned (take (isep + length separator) (buffer r)))
      | None \<Rightarrow>
          if length separator \<le> length (buffer r)
             \<and> length (buffer r) + 1 - length separator > limit r
          then (r, Raised LimitOverrunError)
          else if eof r then (r\<lparr>buffer := []\<rparr>, Raised (IncompleteReadError (buffer r)))
          else (r, Pending))"

text \<open>
  What the event loop may do while the network task is suspended: feed received bytes or
  the end of file to the reader, start closing the transport, finish closing it, pause
  and resume writing, move the keyboard focus.
  A suspended task is then resumed normally, or with an exception thrown at its
  \<open>await\<close>: \<open>CancelledError\<close> after \<open>Client.stop\<close>, an \<open>OSError\<close> from the socket.
\<close>

datatype io = Data bytes | Eof | Closing | Closed | PauseWriting | ResumeWriting | Focus bool

datatype wake = Resume "io list" | Throw exn

fun deliver :: "io \<Rightarrow> Client \<Rightarrow> Client" where
  "deliver (Data bs) c = c\<lparr>reader := map_option (\<lambda>r. r\<lparr>buffer := buffer r @ bs\<rparr>) (reader c)\<rparr>"
| "deliver Eof c = c\<lparr>reader := map_option (\<lambda>r. r\<lparr>eof := True\<rparr>) (reader c)\<rparr>"
| "deliver Closing c = c\<lparr>writer := map_option (\<lambda>w. w\<lparr>closing := True\<rparr>) (writer c)\<rparr>"
| "deliver Closed c =
     c\<lparr>writer := map_option (\<lambda>w. w\<lparr>closing := True, closed := True\<rparr>) (writer c)\<rparr>"
| "deliver PauseWriting c = c\<lparr>writer := map_option (\<lambda>w. w\<lparr>paused := True\<rparr>) (writer c)\<rparr>"
| "deliver ResumeWriting c = c\<lparr>writer := map_option (\<lambda>w. w\<lparr>paused := False\<rparr>) (writer c)\<rparr>"
| "deliver (Focus b) c = c\<lparr>focused := b\<rparr>"

text \<open>The streams that \<open>asyncio.open_connection\<close> returns, with the default limit.\<close>

definition open_connection :: "Client \<Rightarrow> Client" where
  "open_connection c =
     c\<lparr>reader := Some \<lparr>buffer = [], eof = False, limit = 2 ^ 16\<rparr>,
       writer := Some \<lparr>closing = False, closed = False, paused = False\<rparr>\<rparr>"

section \<open>\<open>Client.recv\<close> and \<open>Client.net\<close>\<close>

definition recv :: "Client \<Rightarrow> Client \<times> bytes outcome" where
  "recv c =
     (case reader c of
        None \<Rightarrow> (c, Raised AttributeError)
      | Some r \<Rightarrow> (case readuntil MESSAGE_DELIMITER r of (r', res) \<Rightarrow> (c\<lparr>reader := Some r'\<rparr>, res)))"

text \<open>
  The states of the network task: created but not yet run, suspended in
  \<open>open_connection\<close>, suspended in \<open>recv\<close> waiting for data, suspended in
  \<open>wait_closed\<close>, done.
\<close>

datatype pc = NotStarted | Connecting | Receiving | WaitClosed | Done "unit outcome"

definition connecting_line :: "pystr \<Rightarrow> int \<Rightarrow> pystr" where
  "connecting_line h p =
     str ''[info] connecting to host '' @ h @ str '' on port '' @ str_of_int p @ str ''...''"

text \<open>The body of the receive loop after \<open>recv\<close> has returned \<open>data\<close>: decode, notify, log.\<close>

definition handle_data :: "bytes \<Rightarrow> Client \<Rightarrow> exn + Client" where
  "handle_data data c =
     (case decode data of
        None \<Rightarrow> Inl UnicodeDecodeError
      | Some text \<Rightarrow>
          let message = butlast text;
              c1 = (if \<not> focused c then
                      (if contains message (mention_str c)
                       then emit (Playsound (str ''./assets/mention.wav'')) c
                       else emit (Playsound (str ''./assets/message.wav'')) c)
                    else c)
          in Inr (log message True c1))"

text \<open>
  The two handlers of \<open>net\<close>. On \<open>CancelledError\<close>: log, close the writer unless it is
  closing, then wait in \<open>wait_closed\<close>, which returns at once when the writer has
  closed already; with no writer the attribute access raises out of the handler. On
  anything else: print the traceback and return.
\<close>

definition on_exception :: "exn \<Rightarrow> Client \<Rightarrow> Client \<times> pc" where
  "on_exception e c =
     (if e = CancelledError then
        let c1 = log (str ''[info] quitting...'') True c in
        (case writer c1 of
           None \<Rightarrow> (c1, Done (Raised AttributeError))
         | Some w \<Rightarrow>
             ((if \<not> closing w then writer_close c1 else c1),
              (if closed w then Done (Returned ()) else WaitClosed)))
      else (emit (PrintExc e) c, Done (Returned ())))"

lemma find_within: "find buf sep = Some i \<Longrightarrow> i + length sep \<le> length buf"
proof (induction buf arbitrary: i)
  case Nil
  then show ?case by (simp split: if_splits)
next
  case (Cons b bs)
  show ?case
  proof (cases "take (length sep) (b # bs) = sep")
    case True
    then have "length sep = length (take (length sep) (b # bs))" by simp
    then have "length sep \<le> length (b # bs)" by (simp del: take_Suc_Cons)
    with True Cons.prems show ?thesis by simp
  next
    case False
    with Cons.prems obtain j where "find bs sep = Some j" "i = Suc j" by auto
    with Cons.IH show ?thesis by fastforce
  qed
qed

lemma readuntil_Returned:
  assumes "readuntil sep r = (r', Returned data)"
  obtains isep where "sep \<noteq> []" "find (buffer r) sep = Some isep" "isep \<le> limit r"
    "r' = r\<lparr>buffer := drop (isep + length sep) (buffer r)\<rparr>"
    "data = take (isep + length sep) (buffer r)"
proof (cases "find (buffer r) sep")
  case None
  with assms show ?thesis by (simp add: readuntil_def split: if_splits)
next
  case (Some i)
  with assms that [of i] show ?thesis by (simp add: readuntil_def split: if_splits)
qed

lemma buffer_after_readuntil:
  assumes "readuntil sep r = (r', Returned data)"
  shows "length (buffer r') < length (buffer r)"
proof -
  from assms obtain isep where h: "sep \<noteq> []" "find (buffer r) sep = Some isep"
    "r' = r\<lparr>buffer := drop (isep + length sep) (buffer r)\<rparr>"
    by (rule readuntil_Returned)
  from h(2) have "isep + length sep \<le> length (buffer r)" by (rule find_within)
  with h(1,3) show ?thesis by (cases sep) auto
qed


lemma reader_emit [simp]: "reader (emit e c) = reader c"
  by (simp add: emit_def)

lemma reader_log [simp]: "reader (log m i c) = reader c"
  by (simp add: log_def Let_def)

lemma reader_handle_data: "handle_data data c = Inr c' \<Longrightarrow> reader c' = reader c"
  by (auto simp: handle_data_def Let_def split: option.splits if_splits)

text \<open>
  The receive loop of \<open>net\<close>, run until the task is suspended or done. \<open>inside\<close> tells
  that the task is resumed inside \<open>recv\<close>, past the loop condition. When the condition
  fails, the loop is left, the error is logged, the writer closed, and the outer loop
  logs the next attempt and waits in \<open>open_connection\<close>.
\<close>

function receive_loop :: "pystr \<Rightarrow> int \<Rightarrow> bool \<Rightarrow> Client \<Rightarrow> Client \<times> pc" where
  "receive_loop h p inside c =
     (case reader c of
        None \<Rightarrow> on_exception AttributeError c
      | Some r \<Rightarrow>
         (case writer c of
            None \<Rightarrow> on_exception AttributeError c
          | Some w \<Rightarrow>
              if \<not> inside \<and> (at_eof r \<or> closing w) then
                (log (connecting_line h p) True
                   (writer_close (log (str ''[error] server connection closed'') True c)),
                 Connecting)
              else
                (case recv c of
                   (c1, Returned data) \<Rightarrow>
                     (case handle_data data c1 of
                        Inr c2 \<Rightarrow> receive_loop h p False c2
                      | Inl e \<Rightarrow> on_exception e c1)
                 | (c1, Raised e) \<Rightarrow> on_exception e c1
                 | (c1, Pending) \<Rightarrow> (c1, Receiving))))"
  by pat_completeness auto
termination
  apply (relation "measure (\<lambda>(h, p, inside, c). case reader c of None \<Rightarrow> 0 | Some r \<Rightarrow> length (buffer r))")
   apply simp
  apply (auto simp: recv_def split: prod.splits dest!: reader_handle_data buffer_after_readuntil)
  done

declare receive_loop.simps [simp del]

text \<open>The first step of \<open>net\<close>: log the first attempt and wait in \<open>open_connection\<close>.\<close>

definition net_start :: "pystr \<Rightarrow> int \<Rightarrow> Client \<Rightarrow> Client \<times> pc" where
  "net_start h p c = (log (connecting_line h p) True c, Connecting)"

definition is_closed :: "Client \<Rightarrow> bool" where
  "is_closed c = (case writer c of None \<Rightarrow> False | Some w \<Rightarrow> closed w)"

text \<open>
  One step of the task, up to its next suspension or its end. A task that has not run yet
  takes its first step, or, when an exception is thrown into it, ends with that exception
  before it enters the \<open>try\<close> block. A task suspended in \<open>wait_closed\<close> goes on only
  when the writer has closed.
\<close>

fun resume :: "pystr \<Rightarrow> int \<Rightarrow> wake \<Rightarrow> Client \<times> pc \<Rightarrow> Client \<times> pc" where
  "resume h p (Resume ios) (c, NotStarted) = net_start h p (fold deliver ios c)"
| "resume h p (Throw e) (c, NotStarted) = (c, Done (Raised e))"
| "resume h p (Resume ios) (c, Connecting) =
     receive_loop h p False
       (log (str ''[info] connected'') True (fold deliver ios (open_connection c)))"
| "resume h p (Throw e) (c, Connecting) = on_exception e c"
| "resume h p (Resume ios) (c, Receiving) = receive_loop h p True (fold deliver ios c)"
| "resume h p (Throw e) (c, Receiving) = on_exception e c"
| "resume h p (Resume ios) (c, WaitClosed) =
     (fold deliver ios c,
      if is_closed (fold deliver ios c) then Done (Returned ()) else WaitClosed)"
| "resume h p (Throw e) (c, WaitClosed) = (c, Done (Raised e))"
| "resume h p wk (c, Done r) = (c, Done r)"

text \<open>
  \<open>Client.net\<close> from its first step on: the task has logged the first attempt and waits
  in \<open>open_connection\<close>; the schedule then resumes it one wake-up at a time.
\<close>

definition net :: "pystr \<Rightarrow> int \<Rightarrow> Client \<Rightarrow> wake list \<Rightarrow> Client \<times> pc" where
  "net h p c ws = fold (resume h p) ws (net_start h p c)"

text \<open>The wake-up of a task that has been cancelled: \<open>CancelledError\<close> is thrown into it.\<close>

definition stop :: wake where
  "stop = Throw CancelledError"

section \<open>\<open>Client.stop\<close> and \<open>Client._async_run\<close>\<close>

text \<open>
  What the user does while \<open>update\<close> runs: close the window, which calls
  \<open>Client.stop\<close>, or press Return in the entry widget, which holds the given text and
  calls \<open>_entry_binding\<close>. What the event loop has ready to run: a step of the network
  task, or the first step of a send task created by \<open>_entry_binding\<close>.
\<close>

datatype ui = Stop | Submit pystr

datatype job = NetStep wake | SendStep bytes

text \<open>
  \<open>Client.stop\<close> is \<open>net_task.cancel()\<close>. A task that is done is left alone. In a task
  that has not run yet, the first step, which is ready, throws \<open>CancelledError\<close> into the
  coroutine. Otherwise the task is suspended: what it awaits is cancelled, which makes a
  wake-up with \<open>CancelledError\<close> ready, once.
\<close>

definition cancel :: "pc \<Rightarrow> job list \<Rightarrow> job list" where
  "cancel s ready =
     (case s of
        Done r \<Rightarrow> ready
      | NotStarted \<Rightarrow>
          map (\<lambda>j. case j of NetStep wk \<Rightarrow> NetStep stop | SendStep d \<Rightarrow> SendStep d) ready
      | _ \<Rightarrow> if NetStep stop \<in> set ready then ready else ready @ [NetStep stop])"

text \<open>
  One event handled by \<open>update\<close>. The send task that \<open>_entry_binding\<close> creates becomes
  ready behind what is ready already.
\<close>

fun ui_event :: "ui \<Rightarrow> Client \<times> pc \<times> job list \<Rightarrow> Client \<times> pc \<times> job list" where
  "ui_event Stop (c, s, ready) = (c, s, cancel s ready)"
| "ui_event (Submit body) (c, s, ready) =
     (let c0 = c\<lparr>entry := body\<rparr>; c1 = fst (entry_binding c0)
      in (c1, s,
          ready @ map SendStep (drop (length (scheduled (effects c0))) (scheduled (effects c1)))))"

text \<open>
  One ready job run by the event loop. A send task does nothing after its first step
  that the client can observe, so what it ends with, and when, is not looked at.
\<close>

fun run_job :: "pystr \<Rightarrow> int \<Rightarrow> job \<Rightarrow> Client \<times> pc \<Rightarrow> Client \<times> pc" where
  "run_job h p (NetStep wk) (c, s) = resume h p wk (c, s)"
| "run_job h p (SendStep data) (c, s) = (fst (send data c), s)"

text \<open>
  The loop of \<open>_async_run\<close>. While the task is not done: \<open>update\<close> handles the events of
  the GUI, then the pump sleeps, during which the event loop runs what is ready, in order,
  and delivers the wake-ups that the network causes in this tick. When the task is done
  the pump awaits it, which gives its result or raises its exception. With no tick left
  and the task not done the pump is still looping.
\<close>

fun pump ::
  "pystr \<Rightarrow> int \<Rightarrow> (ui list \<times> wake list) list \<Rightarrow> Client \<times> pc \<times> job list \<Rightarrow> Client \<times> unit outcome"
where
  "pump h p ticks (c, Done r, ready) = (c, r)"
| "pump h p [] (c, s, ready) = (c, Pending)"
| "pump h p ((uis, wakes) # ticks) (c, s, ready) =
     (case fold ui_event uis (c, s, ready) of
        (c1, s1, ready1) \<Rightarrow>
          (case fold (resume h p) wakes (fold (run_job h p) ready1 (c1, s1)) of
             (c2, s2) \<Rightarrow> pump h p ticks (c2, s2, [])))"

text \<open>
  \<open>_async_run\<close>: \<open>create_task\<close> makes the first step of \<open>net\<close> ready without running
  it, \<open>update\<close> is called once, on the events \<open>uis\<close>, and the loop follows.
\<close>

definition async_run ::
  "Client \<Rightarrow> ui list \<Rightarrow> (ui list \<times> wake list) list \<Rightarrow> Client \<times> unit outcome" where
  "async_run c uis ticks =
     pump (host c) (port c) ticks (fold ui_event uis (c, NotStarted, [NetStep (Resume [])]))"

text \<open>The texts inserted into the \<open>messages\<close> widget, in order.\<close>

fun inserted :: "effect list \<Rightarrow> pystr list" where
  "inserted [] = []"
| "inserted (Insert s # es) = s # inserted es"
| "inserted (_ # es) = inserted es"

section \<open>Basic facts\<close>

lemma effects_emit [simp]: "effects (emit e c) = effects c @ [e]"
  by (simp add: emit_def)

lemma writer_emit [simp]: "writer (emit e c) = writer c"
  by (simp add: emit_def)

lemma effects_log [simp]:
  "effects (log m True c) = effects c @ [Insert (m @ str ''\<newline>''), See]"
  by (simp add: log_def Let_def)

lemma writer_log [simp]: "writer (log m i c) = writer c"
  by (simp add: log_def Let_def)

lemma effects_open_connection [simp]: "effects (open_connection c) = effects c"
  by (simp add: open_connection_def)

lemma fold_resume_Done [simp]: "fold (resume h p) ws (c, Done r) = (c, Done r)"
  by (induction ws) auto

lemma on_exception_other:
  "e \<noteq> CancelledError \<Longrightarrow> on_exception e c = (emit (PrintExc e) c, Done (Returned ()))"
  by (simp add: on_exception_def)

text \<open>A connection that has just been opened has nothing buffered: the task waits in \<open>recv\<close>.\<close>

lemma receive_loop_fresh:
  "reader c = Some \<lparr>buffer = [], eof = False, limit = 2 ^ 16\<rparr> \<Longrightarrow>
   writer c = Some \<lparr>closing = False, closed = False, paused = False\<rparr> \<Longrightarrow>
   receive_loop h p False c = (c, Receiving)"
  by (simp add: receive_loop.simps at_eof_def recv_def readuntil_def MESSAGE_DELIMITER_def)

lemma effects_deliver [simp]: "effects (fold deliver ios c) = effects c"
proof (induction ios arbitrary: c)
  case Nil
  show ?case by simp
next
  case (Cons i ios)
  then show ?case by (cases i) simp_all
qed

lemma effects_writer_close [simp]: "effects (writer_close c) = effects c @ [WriterClose]"
  by (simp add: writer_close_def)

text \<open>
  Send tasks that run while the writer is live hand their data to it, in order; send
  tasks that run while it is closing change nothing.
\<close>

lemma writer_fold_emit [simp]: "writer (fold (\<lambda>d. emit (WriterWrite d)) ds c) = writer c"
  by (induction ds arbitrary: c) simp_all

lemma effects_fold_emit [simp]:
  "effects (fold (\<lambda>d. emit (WriterWrite d)) ds c) = effects c @ map WriterWrite ds"
  by (induction ds arbitrary: c) simp_all






text \<open>
  Ticks in which nothing happens leave the pump where it is; over ticks without events of
  the GUI the pump returns what the task ends with, and keeps looping for as long as the
  task is not done.
\<close>

lemma pump_idle:
  "pump h p (replicate k ([], []) @ ticks) (c, s, []) = pump h p ticks (c, s, [])"
proof (induction k)
  case 0
  show ?case by simp
next
  case (Suc k)
  then show ?case by (cases s) simp_all
qed


lemma take_eq_iff_prefix: "take (length sub) ys = sub \<longleftrightarrow> (\<exists>post. ys = sub @ post)"
proof
  assume "take (length sub) ys = sub"
  then have "ys = sub @ drop (length sub) ys" by (metis append_take_drop_id)
  then show "\<exists>post. ys = sub @ post" ..
next
  assume "\<exists>post. ys = sub @ post"
  then show "take (length sub) ys = sub" by auto
qed

lemma contains_iff: "contains s sub \<longleftrightarrow> (\<exists>pre post. s = pre @ sub @ post)"
proof (induction s)
  case Nil
  show ?case by auto
next
  case (Cons x xs)
  have "(\<exists>pre post. x # xs = pre @ sub @ post)
      \<longleftrightarrow> (\<exists>post. x # xs = sub @ post) \<or> (\<exists>pre post. xs = pre @ sub @ post)"
  proof
    assume "\<exists>pre post. x # xs = pre @ sub @ post"
    then obtain pre post where h: "x # xs = pre @ sub @ post" by blast
    show "(\<exists>post. x # xs = sub @ post) \<or> (\<exists>pre post. xs = pre @ sub @ post)"
    proof (cases pre)
      case Nil
      with h show ?thesis by auto
    next
      case (Cons y pre')
      with h have "xs = pre' @ sub @ post" by simp
      then show ?thesis by blast
    qed
  next
    assume "(\<exists>post. x # xs = sub @ post) \<or> (\<exists>pre post. xs = pre @ sub @ post)"
    then show "\<exists>pre post. x # xs = pre @ sub @ post"
    proof
      assume "\<exists>post. x # xs = sub @ post"
      then obtain post where "x # xs = [] @ sub @ post" by auto
      then show ?thesis by blast
    next
      assume "\<exists>pre post. xs = pre @ sub @ post"
      then obtain pre post where "x # xs = (x # pre) @ sub @ post" by auto
      then show ?thesis by blast
    qed
  qed
  with Cons.IH show ?case by (simp only: contains.simps take_eq_iff_prefix)
qed

lemma find_byte:
  "find buf [d] = Some i \<Longrightarrow> i < length buf \<and> buf ! i = d \<and> d \<notin> set (take i buf)"
proof (induction buf arbitrary: i)
  case Nil
  then show ?case by simp
next
  case (Cons b bs)
  show ?case
  proof (cases "b = d")
    case True
    with Cons.prems show ?thesis by simp
  next
    case False
    with Cons.prems obtain j where j: "find bs [d] = Some j" "i = Suc j" by auto
    from Cons.IH [OF j(1)] j(2) False show ?thesis by simp
  qed
qed

text \<open>What \<open>strip\<close> removes is whitespace, and what it leaves neither begins nor ends with any.\<close>

lemma strip_spec:
  "\<exists>l r. s = l @ strip s @ r \<and> (\<forall>x\<in>set l. isspace x) \<and> (\<forall>x\<in>set r. isspace x)
         \<and> (strip s \<noteq> [] \<longrightarrow> \<not> isspace (hd (strip s)) \<and> \<not> isspace (last (strip s)))"
proof -
  let ?t = "dropWhile isspace s"
  let ?l = "takeWhile isspace s"
  let ?r = "rev (takeWhile isspace (rev ?t))"
  have t: "?t = strip s @ ?r"
  proof -
    have "rev (dropWhile isspace (rev ?t)) @ ?r
            = rev (takeWhile isspace (rev ?t) @ dropWhile isspace (rev ?t))"
      by (simp only: rev_append)
    also have "\<dots> = rev (rev ?t)" by (simp only: takeWhile_dropWhile_id)
    also have "\<dots> = ?t" by simp
    finally show ?thesis by (simp add: strip_def)
  qed
  have s: "s = ?l @ strip s @ ?r"
    using t takeWhile_dropWhile_id [of isspace s] by simp
  have l: "\<forall>x\<in>set ?l. isspace x" by (auto dest: set_takeWhileD)
  have r: "\<forall>x\<in>set ?r. isspace x" by (auto dest: set_takeWhileD)
  have e: "\<not> isspace (hd (strip s)) \<and> \<not> isspace (last (strip s))" if ne: "strip s \<noteq> []"
  proof
    from ne t have "?t \<noteq> []" by (metis append_is_Nil_conv)
    then have "\<not> isspace (hd ?t)" by (rule hd_dropWhile)
    moreover from ne t have "hd ?t = hd (strip s)" by (metis hd_append2)
    ultimately show "\<not> isspace (hd (strip s))" by simp
  next
    from ne have d: "dropWhile isspace (rev ?t) \<noteq> []" by (simp add: strip_def)
    then have "\<not> isspace (hd (dropWhile isspace (rev ?t)))" by (rule hd_dropWhile)
    moreover from d have "last (strip s) = hd (dropWhile isspace (rev ?t))"
      by (simp add: strip_def last_rev)
    ultimately show "\<not> isspace (last (strip s))" by simp
  qed
  from s l r e show ?thesis by blast
qed

text \<open>Facts about decoding: a decoded prefix does not depend on what follows, and a frame
  that ends with the newline byte decodes to a line that ends with the newline.\<close>

lemma bytes_shape:
  obtains "bs = []" | b0 where "bs = [b0]" | b0 b1 where "bs = [b0, b1]"
  | b0 b1 b2 where "bs = [b0, b1, b2]" | b0 b1 b2 b3 r where "bs = b0 # b1 # b2 # b3 # r"
proof (cases bs)
  case Nil
  then show ?thesis using that by simp
next
  case c0: (Cons b0 r0)
  show ?thesis
  proof (cases r0)
    case Nil
    with c0 show ?thesis using that by simp
  next
    case c1: (Cons b1 r1)
    show ?thesis
    proof (cases r1)
      case Nil
      with c0 c1 show ?thesis using that by simp
    next
      case c2: (Cons b2 r2)
      show ?thesis
      proof (cases r2)
        case Nil
        with c0 c1 c2 show ?thesis using that by simp
      next
        case (Cons b3 r3)
        with c0 c1 c2 show ?thesis using that by simp
      qed
    qed
  qed
qed

lemma decode_cp_append:
  assumes "decode_cp bs = Some (c, rest)"
  shows "decode_cp (bs @ ys) = Some (c, rest @ ys)"
proof (cases bs rule: bytes_shape)
  case 1
  with assms show ?thesis by (simp add: decode_cp_def)
next
  case (2 b0)
  with assms show ?thesis by (simp add: decode_cp_def split: if_splits)
next
  case (3 b0 b1)
  with assms show ?thesis by (simp add: decode_cp_def split: if_splits)
next
  case (4 b0 b1 b2)
  with assms show ?thesis by (simp add: decode_cp_def split: if_splits)
next
  case (5 b0 b1 b2 b3 r)
  with assms show ?thesis by (simp add: decode_cp_def split: if_splits)
qed

lemma newline_not_continuation: "\<not> continuation 0x0A"
  by (simp add: continuation_def)

lemma newline_not_second: "\<not> second_ok b0 0x0A"
  by (simp add: second_ok_def continuation_def)

lemma decode_cp_snoc_newline_None:
  assumes "bs \<noteq> []" and "decode_cp bs = None"
  shows "decode_cp (bs @ [0x0A]) = None"
proof (cases bs rule: bytes_shape)
  case 1
  with assms show ?thesis by simp
next
  case (2 b0)
  with assms show ?thesis
    by (auto simp: decode_cp_def newline_not_continuation newline_not_second split: if_splits)
next
  case (3 b0 b1)
  with assms show ?thesis
    by (auto simp: decode_cp_def newline_not_continuation newline_not_second split: if_splits)
next
  case (4 b0 b1 b2)
  with assms show ?thesis
    by (auto simp: decode_cp_def newline_not_continuation newline_not_second split: if_splits)
next
  case (5 b0 b1 b2 b3 r)
  with assms show ?thesis
    by (auto simp: decode_cp_def split: if_splits)
qed

lemma decode_Nil [simp]: "decode [] = Some []"
  by (simp add: decode.simps)

lemma decode_Cons:
  "bs \<noteq> [] \<Longrightarrow> decode bs =
     (case decode_cp bs of
        None \<Rightarrow> None
      | Some (c, rest) \<Rightarrow> (case decode rest of None \<Rightarrow> None | Some cs \<Rightarrow> Some (c # cs)))"
  by (subst decode.simps) simp

lemma decode_cp_newline: "decode_cp [0x0A] = Some (10, [])"
  by (simp add: decode_cp_def)

lemma decode_snoc_newline:
  "decode (xs @ [0x0A]) = Some t \<Longrightarrow> \<exists>m. decode xs = Some m \<and> t = m @ [10]"
proof (induction xs arbitrary: t rule: length_induct)
  case (1 xs)
  show ?case
  proof (cases "xs = []")
    case True
    with "1.prems" show ?thesis
      by (simp add: decode_Cons decode_cp_newline)
  next
    case False
    from "1.prems" obtain c rest' cs where
      cp': "decode_cp (xs @ [0x0A]) = Some (c, rest')" and
      d': "decode rest' = Some cs" and t: "t = c # cs"
      by (auto simp: decode_Cons split: option.splits)
    from cp' False obtain c0 rest where cp: "decode_cp xs = Some (c0, rest)"
      using decode_cp_snoc_newline_None [of xs] by (cases "decode_cp xs") auto
    from decode_cp_append [OF cp, of "[0x0A]"] cp' have eq: "c = c0" "rest' = rest @ [0x0A]"
      by simp_all
    from cp have "length rest < length xs" by (rule decode_cp_shorter)
    with "1.IH" d' eq obtain m' where m': "decode rest = Some m'" "cs = m' @ [10]"
      by blast
    from False cp m' have "decode xs = Some (c0 # m')" by (simp add: decode_Cons)
    with t eq m' show ?thesis by simp
  qed
qed

lemma inserted_append [simp]: "inserted (es @ fs) = inserted es @ inserted fs"
  by (induction es rule: inserted.induct) simp_all

text \<open>
  Encoding and decoding are inverse to each other: the byte sequences that decode are
  exactly the encodings of strings. The proof goes through the four forms of a sequence,
  each described by the numbers that its bytes carry.
\<close>

lemma step64:
  fixes a b :: nat
  assumes "b < 64"
  shows "(a * 64 + b) mod 64 = b" and "(a * 64 + b) div 64 = a"
  using assms by simp_all

lemma split4:
  fixes h m n l :: nat
  assumes "m < 64" "n < 64" "l < 64"
  defines "c \<equiv> h * 262144 + m * 4096 + n * 64 + l"
  shows "c div 262144 = h" "c div 4096 mod 64 = m" "c div 64 mod 64 = n" "c mod 64 = l"
proof -
  have c: "c = ((h * 64 + m) * 64 + n) * 64 + l" by (simp add: c_def)
  show "c mod 64 = l" unfolding c using assms(3) by (rule step64)
  have d1: "c div 64 = (h * 64 + m) * 64 + n" unfolding c using assms(3) by (rule step64)
  show "c div 64 mod 64 = n" unfolding d1 using assms(2) by (rule step64)
  have "c div 4096 = c div 64 div 64" by (simp add: div_mult2_eq)
  also have "\<dots> = h * 64 + m" unfolding d1 using assms(2) by (rule step64)
  finally have d2: "c div 4096 = h * 64 + m" .
  show "c div 4096 mod 64 = m" unfolding d2 using assms(1) by (rule step64)
  have "c div 262144 = c div 4096 div 64" by (simp add: div_mult2_eq)
  also have "\<dots> = h" unfolding d2 using assms(1) by (rule step64)
  finally show "c div 262144 = h" .
qed

lemma split3:
  fixes h m l :: nat
  assumes "m < 64" "l < 64"
  defines "c \<equiv> h * 4096 + m * 64 + l"
  shows "c div 4096 = h" "c div 64 mod 64 = m" "c mod 64 = l"
proof -
  have c: "c = (h * 64 + m) * 64 + l" by (simp add: c_def)
  show "c mod 64 = l" unfolding c using assms(2) by (rule step64)
  have d1: "c div 64 = h * 64 + m" unfolding c using assms(2) by (rule step64)
  show "c div 64 mod 64 = m" unfolding d1 using assms(1) by (rule step64)
  have "c div 4096 = c div 64 div 64" by (simp add: div_mult2_eq)
  also have "\<dots> = h" unfolding d1 using assms(1) by (rule step64)
  finally show "c div 4096 = h" .
qed

lemma range4:
  fixes h m n l :: nat
  assumes "h < 5" "m < 64" "n < 64" "l < 64" "h = 0 \<longrightarrow> 16 \<le> m" "h = 4 \<longrightarrow> m < 16"
  shows "65536 \<le> h * 262144 + m * 4096 + n * 64 + l"
    and "h * 262144 + m * 4096 + n * 64 + l < 1114112"
  using assms by linarith+

lemma range3:
  fixes h m l :: nat
  assumes "h < 16" "m < 64" "l < 64" "h = 0 \<longrightarrow> 32 \<le> m" "h = 13 \<longrightarrow> m < 32"
  shows "2048 \<le> h * 4096 + m * 64 + l"
    and "h * 4096 + m * 64 + l < 65536"
    and "\<not> (55296 \<le> h * 4096 + m * 64 + l \<and> h * 4096 + m * 64 + l \<le> 57343)"
proof -
  from assms show "2048 \<le> h * 4096 + m * 64 + l" by linarith
  from assms show "h * 4096 + m * 64 + l < 65536" by linarith
  consider "h \<le> 12" | "h = 13" | "14 \<le> h" by linarith
  then show "\<not> (55296 \<le> h * 4096 + m * 64 + l \<and> h * 4096 + m * 64 + l \<le> 57343)"
  proof cases
    case 1
    with assms show ?thesis by linarith
  next
    case 2
    with assms show ?thesis by linarith
  next
    case 3
    with assms show ?thesis by linarith
  qed
qed

lemma byte_eq_numeral: "(b = (numeral k :: byte)) \<longleftrightarrow> unat b = unat (numeral k :: byte)"
  by (rule word_unat_eq_iff)

lemmas byte_nat = word_less_nat_alt word_le_nat_alt byte_eq_numeral

lemma decode_cp_1: "unat b0 < 128 \<Longrightarrow> decode_cp (b0 # rest) = Some (unat b0, rest)"
  by (simp add: decode_cp_def byte_nat)

lemma decode_cp_2:
  "unat b0 = 192 + h \<Longrightarrow> 2 \<le> h \<Longrightarrow> h < 32 \<Longrightarrow> unat b1 = 128 + l \<Longrightarrow> l < 64 \<Longrightarrow>
   decode_cp (b0 # b1 # rest) = Some (h * 64 + l, rest)"
  by (simp add: decode_cp_def continuation_def byte_nat)

lemma decode_cp_3:
  "unat b0 = 224 + h \<Longrightarrow> h < 16 \<Longrightarrow> unat b1 = 128 + m \<Longrightarrow> m < 64 \<Longrightarrow>
   unat b2 = 128 + l \<Longrightarrow> l < 64 \<Longrightarrow> (h = 0 \<longrightarrow> 32 \<le> m) \<Longrightarrow> (h = 13 \<longrightarrow> m < 32) \<Longrightarrow>
   decode_cp (b0 # b1 # b2 # rest) = Some (h * 4096 + m * 64 + l, rest)"
  by (auto simp: decode_cp_def continuation_def second_ok_def byte_nat)

lemma decode_cp_4:
  "unat b0 = 240 + h \<Longrightarrow> h < 5 \<Longrightarrow> unat b1 = 128 + m \<Longrightarrow> m < 64 \<Longrightarrow>
   unat b2 = 128 + n \<Longrightarrow> n < 64 \<Longrightarrow> unat b3 = 128 + l \<Longrightarrow> l < 64 \<Longrightarrow>
   (h = 0 \<longrightarrow> 16 \<le> m) \<Longrightarrow> (h = 4 \<longrightarrow> m < 16) \<Longrightarrow>
   decode_cp (b0 # b1 # b2 # b3 # rest) = Some (h * 262144 + m * 4096 + n * 64 + l, rest)"
  by (auto simp: decode_cp_def continuation_def second_ok_def byte_nat)


lemma byte_of_unat: "unat (b :: byte) = n \<Longrightarrow> of_nat n = b"
  by auto

lemma encode_cp_1: "unat b0 < 128 \<Longrightarrow> encode_cp (unat b0) = Some [b0]"
  by (simp add: encode_cp_def)

lemma encode_cp_2:
  assumes "unat b0 = 192 + h" "2 \<le> h" "h < 32" "unat b1 = 128 + l" "l < 64"
  shows "encode_cp (h * 64 + l) = Some [b0, b1]"
proof -
  let ?c = "h * 64 + l"
  from assms have r: "\<not> ?c < 128" "?c < 2048" by arith+
  from assms have d: "?c div 64 = h" "?c mod 64 = l" by simp_all
  from assms have "of_nat (192 + h) = b0" "of_nat (128 + l) = b1"
    by (simp_all only: byte_of_unat)
  with r d show ?thesis by (simp only: encode_cp_def if_True if_False)
qed

lemma encode_cp_3:
  assumes "unat b0 = 224 + h" "h < 16" "unat b1 = 128 + m" "m < 64"
    "unat b2 = 128 + l" "l < 64" "h = 0 \<longrightarrow> 32 \<le> m" "h = 13 \<longrightarrow> m < 32"
  shows "encode_cp (h * 4096 + m * 64 + l) = Some [b0, b1, b2]"
proof -
  let ?c = "h * 4096 + m * 64 + l"
  from range3 [OF assms(2,4,6,7,8)]
  have r: "\<not> ?c < 128" "\<not> ?c < 2048" "\<not> (55296 \<le> ?c \<and> ?c \<le> 57343)" "?c < 65536"
    by linarith+
  note d = split3 [OF assms(4,6), of h]
  from assms have "of_nat (224 + h) = b0" "of_nat (128 + m) = b1" "of_nat (128 + l) = b2"
    by (simp_all only: byte_of_unat)
  with r d show ?thesis by (simp only: encode_cp_def if_True if_False)
qed

lemma encode_cp_4:
  assumes "unat b0 = 240 + h" "h < 5" "unat b1 = 128 + m" "m < 64"
    "unat b2 = 128 + n" "n < 64" "unat b3 = 128 + l" "l < 64"
    "h = 0 \<longrightarrow> 16 \<le> m" "h = 4 \<longrightarrow> m < 16"
  shows "encode_cp (h * 262144 + m * 4096 + n * 64 + l) = Some [b0, b1, b2, b3]"
proof -
  let ?c = "h * 262144 + m * 4096 + n * 64 + l"
  from range4 [OF assms(2,4,6,8,9,10)]
  have r: "\<not> ?c < 128" "\<not> ?c < 2048" "\<not> (55296 \<le> ?c \<and> ?c \<le> 57343)"
    "\<not> ?c < 65536" "?c < 1114112"
    by linarith+
  note d = split4 [OF assms(4,6,8), of h]
  from assms have "of_nat (240 + h) = b0" "of_nat (128 + m) = b1" "of_nat (128 + n) = b2"
    "of_nat (128 + l) = b3"
    by (simp_all only: byte_of_unat)
  with r d show ?thesis by (simp only: encode_cp_def if_True if_False)
qed

lemma unat_byte_of_nat: "n < 256 \<Longrightarrow> unat (of_nat n :: byte) = n"
  by (simp add: unat_of_nat)

lemma decode_encode_cp:
  assumes "encode_cp c = Some enc"
  shows "decode_cp (enc @ rest) = Some (c, rest)"
proof -
  consider "c < 128" | "128 \<le> c" "c < 2048"
    | "2048 \<le> c" "c < 65536" "\<not> (55296 \<le> c \<and> c \<le> 57343)"
    | "65536 \<le> c" "c < 1114112"
    using assms by (fastforce simp: encode_cp_def split: if_splits)
  then show ?thesis
  proof cases
    case 1
    with assms have enc: "enc = [of_nat c]"
      by (simp only: encode_cp_def if_True option.inject)
    from 1 have u: "unat (of_nat c :: byte) = c" by (intro unat_byte_of_nat) linarith
    with 1 have "decode_cp (of_nat c # rest) = Some (unat (of_nat c :: byte), rest)"
      by (intro decode_cp_1) simp
    with enc u show ?thesis by (simp only: append_Cons append_Nil)
  next
    case 2
    let ?h = "c div 64" and ?l = "c mod 64"
    from 2 have "\<not> c < 128" "c < 2048" by linarith+
    with assms have enc: "enc = [of_nat (192 + ?h), of_nat (128 + ?l)]"
      by (simp only: encode_cp_def if_True if_False option.inject)
    from 2 have h: "2 \<le> ?h" "?h < 32" by linarith+
    have l: "?l < 64" by simp
    from h have u0: "unat (of_nat (192 + ?h) :: byte) = 192 + ?h"
      by (intro unat_byte_of_nat) linarith
    from l have u1: "unat (of_nat (128 + ?l) :: byte) = 128 + ?l"
      by (intro unat_byte_of_nat) linarith
    have "?h * 64 + ?l = c" by simp
    with decode_cp_2 [OF u0 h u1 l, of rest] enc show ?thesis by (simp only: append_Cons append_Nil)
  next
    case 3
    let ?h = "c div 4096" and ?m = "c div 64 mod 64" and ?l = "c mod 64"
    from 3 have "\<not> c < 128" "\<not> c < 2048" "c < 65536" by linarith+
    with 3(3) assms have enc: "enc = [of_nat (224 + ?h), of_nat (128 + ?m), of_nat (128 + ?l)]"
      by (simp only: encode_cp_def if_True if_False option.inject)
    from 3 have h: "?h < 16" by linarith
    have m: "?m < 64" and l: "?l < 64" by simp_all
    have c: "?h * 4096 + ?m * 64 + ?l = c"
    proof -
      have "c = c div 64 * 64 + ?l" by simp
      moreover have "c div 64 = c div 64 div 64 * 64 + ?m" by simp
      moreover have "c div 64 div 64 = ?h" by (simp add: div_mult2_eq)
      ultimately show ?thesis by linarith
    qed
    from 3 c have c0: "?h = 0 \<longrightarrow> 32 \<le> ?m" by linarith
    from 3 c m l have c13: "?h = 13 \<longrightarrow> ?m < 32" by linarith
    from h have u0: "unat (of_nat (224 + ?h) :: byte) = 224 + ?h"
      by (intro unat_byte_of_nat) linarith
    from m have u1: "unat (of_nat (128 + ?m) :: byte) = 128 + ?m"
      by (intro unat_byte_of_nat) linarith
    from l have u2: "unat (of_nat (128 + ?l) :: byte) = 128 + ?l"
      by (intro unat_byte_of_nat) linarith
    from decode_cp_3 [OF u0 h u1 m u2 l c0 c13, of rest] enc c show ?thesis
      by (simp only: append_Cons append_Nil)
  next
    case 4
    let ?h = "c div 262144" and ?m = "c div 4096 mod 64" and ?n = "c div 64 mod 64"
      and ?l = "c mod 64"
    from 4 have "\<not> c < 128" "\<not> c < 2048" "\<not> (55296 \<le> c \<and> c \<le> 57343)"
      "\<not> c < 65536" "c < 1114112" by linarith+
    with assms have enc: "enc = [of_nat (240 + ?h), of_nat (128 + ?m), of_nat (128 + ?n),
        of_nat (128 + ?l)]"
      by (simp only: encode_cp_def if_True if_False option.inject)
    from 4 have h: "?h < 5" by linarith
    have m: "?m < 64" and n: "?n < 64" and l: "?l < 64" by simp_all
    have c: "?h * 262144 + ?m * 4096 + ?n * 64 + ?l = c"
    proof -
      have "c = c div 64 * 64 + ?l" by simp
      moreover have "c div 64 = c div 64 div 64 * 64 + ?n" by simp
      moreover have "c div 64 div 64 = c div 4096" by (simp add: div_mult2_eq)
      moreover have "c div 4096 = c div 4096 div 64 * 64 + ?m" by simp
      moreover have "c div 4096 div 64 = ?h" by (simp add: div_mult2_eq)
      ultimately show ?thesis by linarith
    qed
    from 4 c n l have c0: "?h = 0 \<longrightarrow> 16 \<le> ?m" by linarith
    from 4 c have c4: "?h = 4 \<longrightarrow> ?m < 16" by linarith
    from h have u0: "unat (of_nat (240 + ?h) :: byte) = 240 + ?h"
      by (intro unat_byte_of_nat) linarith
    from m have u1: "unat (of_nat (128 + ?m) :: byte) = 128 + ?m"
      by (intro unat_byte_of_nat) linarith
    from n have u2: "unat (of_nat (128 + ?n) :: byte) = 128 + ?n"
      by (intro unat_byte_of_nat) linarith
    from l have u3: "unat (of_nat (128 + ?l) :: byte) = 128 + ?l"
      by (intro unat_byte_of_nat) linarith
    from decode_cp_4 [OF u0 h u1 m u2 n u3 l c0 c4, of rest] enc c show ?thesis
      by (simp only: append_Cons append_Nil)
  qed
qed

lemma continuation_nat: "continuation b \<longleftrightarrow> 128 \<le> unat b \<and> unat b \<le> 191"
  by (simp add: continuation_def byte_nat)

lemma second_ok_nat:
  "second_ok b0 b1 \<longleftrightarrow>
     (if unat b0 = 224 then 160 \<le> unat b1 \<and> unat b1 \<le> 191
      else if unat b0 = 237 then 128 \<le> unat b1 \<and> unat b1 \<le> 159
      else if unat b0 = 240 then 144 \<le> unat b1 \<and> unat b1 \<le> 191
      else if unat b0 = 244 then 128 \<le> unat b1 \<and> unat b1 \<le> 143
      else 128 \<le> unat b1 \<and> unat b1 \<le> 191)"
  by (simp add: second_ok_def continuation_def byte_nat)

lemma decode_cp_SomeE:
  assumes "decode_cp bs = Some (c, rest)"
  obtains (one) b0 where "bs = b0 # rest" "unat b0 < 128" "c = unat b0"
  | (two) b0 b1 where "bs = b0 # b1 # rest" "194 \<le> unat b0" "unat b0 \<le> 223"
      "continuation b1" "c = (unat b0 - 192) * 64 + (unat b1 - 128)"
  | (three) b0 b1 b2 where "bs = b0 # b1 # b2 # rest" "224 \<le> unat b0" "unat b0 \<le> 239"
      "second_ok b0 b1" "continuation b2"
      "c = (unat b0 - 224) * 4096 + (unat b1 - 128) * 64 + (unat b2 - 128)"
  | (four) b0 b1 b2 b3 where "bs = b0 # b1 # b2 # b3 # rest" "240 \<le> unat b0" "unat b0 \<le> 244"
      "second_ok b0 b1" "continuation b2" "continuation b3"
      "c = (unat b0 - 240) * 262144 + (unat b1 - 128) * 4096 + (unat b2 - 128) * 64
             + (unat b3 - 128)"
proof (cases bs rule: bytes_shape)
  case 1
  with assms show ?thesis by (simp add: decode_cp_def)
next
  case (2 b0)
  with assms one show ?thesis
    by (simp add: decode_cp_def word_less_nat_alt word_le_nat_alt split: if_splits)
next
  case (3 b0 b1)
  with assms one two show ?thesis
    by (simp add: decode_cp_def word_less_nat_alt word_le_nat_alt split: if_splits)
next
  case (4 b0 b1 b2)
  with assms one two three show ?thesis
    by (simp add: decode_cp_def word_less_nat_alt word_le_nat_alt split: if_splits)
next
  case (5 b0 b1 b2 b3 r)
  with assms one two three four show ?thesis
    by (simp add: decode_cp_def word_less_nat_alt word_le_nat_alt split: if_splits)
qed

lemma encode_decode_cp:
  assumes "decode_cp bs = Some (c, rest)"
  shows "\<exists>enc. encode_cp c = Some enc \<and> bs = enc @ rest"
  using assms
proof (cases rule: decode_cp_SomeE)
  case (one b0)
  then show ?thesis by (simp add: encode_cp_1)
next
  case (two b0 b1)
  let ?h = "unat b0 - 192" and ?l = "unat b1 - 128"
  from two have u0: "unat b0 = 192 + ?h" and h: "2 \<le> ?h" "?h < 32" by linarith+
  from two have u1: "unat b1 = 128 + ?l" and l: "?l < 64"
    unfolding continuation_nat by linarith+
  from encode_cp_2 [OF u0 h u1 l] two show ?thesis by simp
next
  case (three b0 b1 b2)
  let ?h = "unat b0 - 224" and ?m = "unat b1 - 128" and ?l = "unat b2 - 128"
  from three have u0: "unat b0 = 224 + ?h" and h: "?h < 16" by linarith+
  from three(4) have b1: "128 \<le> unat b1" "unat b1 \<le> 191"
    unfolding second_ok_nat by (auto split: if_splits)
  then have u1: "unat b1 = 128 + ?m" and m: "?m < 64" by linarith+
  from three have u2: "unat b2 = 128 + ?l" and l: "?l < 64"
    unfolding continuation_nat by linarith+
  from three(2,4) have c0: "?h = 0 \<longrightarrow> 32 \<le> ?m"
    unfolding second_ok_nat by (auto split: if_splits)
  from three(2,4) have c13: "?h = 13 \<longrightarrow> ?m < 32"
    unfolding second_ok_nat by (auto split: if_splits)
  from encode_cp_3 [OF u0 h u1 m u2 l c0 c13] three show ?thesis by simp
next
  case (four b0 b1 b2 b3)
  let ?h = "unat b0 - 240" and ?m = "unat b1 - 128" and ?n = "unat b2 - 128"
    and ?l = "unat b3 - 128"
  from four have u0: "unat b0 = 240 + ?h" and h: "?h < 5" by linarith+
  from four(4) have b1: "128 \<le> unat b1" "unat b1 \<le> 191"
    unfolding second_ok_nat by (auto split: if_splits)
  then have u1: "unat b1 = 128 + ?m" and m: "?m < 64" by linarith+
  from four have u2: "unat b2 = 128 + ?n" and n: "?n < 64"
    unfolding continuation_nat by linarith+
  from four have u3: "unat b3 = 128 + ?l" and l: "?l < 64"
    unfolding continuation_nat by linarith+
  from four(2,4) have c0: "?h = 0 \<longrightarrow> 16 \<le> ?m"
    unfolding second_ok_nat by (auto split: if_splits)
  from four(2,4) have c4: "?h = 4 \<longrightarrow> ?m < 16"
    unfolding second_ok_nat by (auto split: if_splits)
  from encode_cp_4 [OF u0 h u1 m u2 n u3 l c0 c4] four show ?thesis by simp
qed

lemma encode_Some_Cons:
  "encode (c # cs) = Some bs \<longleftrightarrow> (\<exists>enc r. encode_cp c = Some enc \<and> encode cs = Some r \<and> bs = enc @ r)"
  by (auto split: option.splits)

lemma encode_cp_nonempty: "encode_cp c = Some enc \<Longrightarrow> enc \<noteq> []"
  by (auto simp: encode_cp_def split: if_splits)

lemma decode_encode: "encode s = Some bs \<Longrightarrow> decode bs = Some s"
proof (induction s arbitrary: bs)
  case Nil
  then show ?case by simp
next
  case (Cons c cs)
  from Cons.prems obtain enc r where
    e: "encode_cp c = Some enc" "encode cs = Some r" "bs = enc @ r"
    by (auto split: option.splits)
  from e(1) have "enc \<noteq> []" by (rule encode_cp_nonempty)
  with e(3) have "bs \<noteq> []" by simp
  moreover from e have "decode_cp bs = Some (c, r)" by (simp add: decode_encode_cp)
  moreover from Cons.IH e(2) have "decode r = Some cs" by simp
  ultimately show ?case by (simp add: decode_Cons)
qed

lemma encode_decode: "decode bs = Some s \<Longrightarrow> encode s = Some bs"
proof (induction bs arbitrary: s rule: length_induct)
  case (1 bs)
  show ?case
  proof (cases "bs = []")
    case True
    with "1.prems" show ?thesis by simp
  next
    case False
    with "1.prems" obtain c rest cs where cp: "decode_cp bs = Some (c, rest)"
      and d: "decode rest = Some cs" and s: "s = c # cs"
      by (auto simp: decode_Cons split: option.splits)
    from cp obtain enc where enc: "encode_cp c = Some enc" "bs = enc @ rest"
      using encode_decode_cp by blast
    from cp have "length rest < length bs" by (rule decode_cp_shorter)
    with "1.IH" d have "encode cs = Some rest" by blast
    with enc s show ?thesis by simp
  qed
qed

lemma decode_Some_iff: "(\<exists>s. decode bs = Some s) \<longleftrightarrow> (\<exists>s. encode s = Some bs)"
  using decode_encode encode_decode by blast

section \<open>Submitting without a live transport\<close>

text \<open>
  Claim C9. A submission made while the writer is absent or closing is a no-op: the
  handler returns \<open>"break"\<close> at once, the client is unchanged, so no send task is
  scheduled and nothing is written.
\<close>

theorem entry_binding_no_transport:
  assumes "writer c = None \<or> (\<exists>w. writer c = Some w \<and> closing w)"
  shows "entry_binding c = (c, Returned (str ''break''))"
  using assms by (auto simp: entry_binding_def)

theorem entry_binding_no_transport_witness:
  "entry_binding ((init (str ''hazel.cafe'') 8888 (str ''anon''))\<lparr>entry := str ''hi\<newline>''\<rparr>)
     = ((init (str ''hazel.cafe'') 8888 (str ''anon''))\<lparr>entry := str ''hi\<newline>''\<rparr>,
        Returned (str ''break''))
   \<and> scheduled (effects (fst (entry_binding
        ((init (str ''hazel.cafe'') 8888 (str ''anon''))\<lparr>entry := str ''hi\<newline>''\<rparr>)))) = []"
  using entry_binding_no_transport
    [of "(init (str ''hazel.cafe'') 8888 (str ''anon''))\<lparr>entry := str ''hi\<newline>''\<rparr>"]
  by (simp add: init_def)

section \<open>A connect attempt that fails\<close>

text \<open>
  Claim C1, as the spec states it, at one failure followed by a success: the claim
  expects two "connecting..." lines and one "connected" line. The task logs one
  "connecting..." line, no "connected" line, and is done.
\<close>

theorem connect_failure_counterexample:
  "count_list
     (effects (fst (net (str ''hazel.cafe'') 8888 (init (str ''hazel.cafe'') 8888 (str ''anon''))
        [Throw OSError, Resume []])))
     (Insert (connecting_line (str ''hazel.cafe'') 8888 @ str ''\<newline>'')) = 1
   \<and> count_list
     (effects (fst (net (str ''hazel.cafe'') 8888 (init (str ''hazel.cafe'') 8888 (str ''anon''))
        [Throw OSError, Resume []])))
     (Insert (str ''[info] connected\<newline>'')) = 0
   \<and> snd (net (str ''hazel.cafe'') 8888 (init (str ''hazel.cafe'') 8888 (str ''anon''))
        [Throw OSError, Resume []]) = Done (Returned ())"
  by (simp add: net_def net_start_def on_exception_def init_def connecting_line_def str_def)

text \<open>
  Claim C1, amended. An exception other than \<open>CancelledError\<close> thrown by
  \<open>open_connection\<close> reaches the catch-all handler: the traceback is printed, nothing is
  logged for it, and the task is done, whatever the rest of the schedule holds. So a run
  whose first attempt fails has logged the one "connecting..." line and nothing else; a run
  whose first attempt succeeds has logged "connecting..." and then "connected", and waits
  in \<open>recv\<close>.
\<close>

theorem connect_failure_ends_task:
  assumes "e \<noteq> CancelledError"
  shows "fold (resume h p) (Throw e # rest) (c, Connecting)
           = (emit (PrintExc e) c, Done (Returned ()))
    \<and> net h p c (Throw e # rest)
           = (emit (PrintExc e) (log (connecting_line h p) True c), Done (Returned ()))
    \<and> net h p c [Resume []]
           = (log (str ''[info] connected'') True
                (open_connection (log (connecting_line h p) True c)), Receiving)"
  using assms
  by (simp add: on_exception_other net_def net_start_def receive_loop_fresh open_connection_def)

theorem connect_failure_ends_task_witness:
  "OSError \<noteq> CancelledError
   \<and> net (str ''hazel.cafe'') 8888 (init (str ''hazel.cafe'') 8888 (str ''anon''))
       [Throw OSError, Throw OSError, Resume []]
     = (emit (PrintExc OSError) (log (connecting_line (str ''hazel.cafe'') 8888) True
          (init (str ''hazel.cafe'') 8888 (str ''anon''))), Done (Returned ()))"
  using connect_failure_ends_task [of OSError "str ''hazel.cafe''" 8888
      "[Throw OSError, Resume []]" "init (str ''hazel.cafe'') 8888 (str ''anon'')"]
  by simp

section \<open>The peer closes while the client waits for a frame\<close>

text \<open>
  The case the loop does handle: the last frame and the end of file arrive together, so
  the loop condition sees the end of file. The error line is logged, the writer closed,
  the next attempt logged, and the task waits in \<open>open_connection\<close>.
\<close>

lemma eof_at_loop_head_reconnects:
  "snd (net (str ''h'') 80 (init (str ''h'') 80 (str ''anon''))
       [Resume [], Resume [Data (bytes_lit ''hi\<newline>''), Eof]]) = Connecting
   \<and> drop 4 (effects (fst (net (str ''h'') 80 (init (str ''h'') 80 (str ''anon''))
       [Resume [], Resume [Data (bytes_lit ''hi\<newline>''), Eof]])))
     = [Playsound (str ''./assets/message.wav''), Insert (str ''hi\<newline>''), See,
        Insert (str ''[error] server connection closed\<newline>''), See, WriterClose,
        Insert (connecting_line (str ''h'') 80 @ str ''\<newline>''), See]"
  by (simp add: net_def net_start_def receive_loop_fresh open_connection_def
      receive_loop.simps recv_def readuntil_def MESSAGE_DELIMITER_def on_exception_def
      at_eof_def init_def log_def emit_def Let_def str_def bytes_lit_def handle_data_def
      decode.simps decode_cp_def writer_close_def)

text \<open>
  Claim C2 at the input where it fails: the connection is made, then the end of file
  arrives while the task waits in \<open>recv\<close>. \<open>readuntil\<close> raises \<open>IncompleteReadError\<close>,
  the catch-all handler prints it, and the task is done: no error line is logged, the
  writer is not closed, no new attempt is made.
\<close>

theorem eof_during_recv_ends_task:
  "net (str ''hazel.cafe'') 8888 (init (str ''hazel.cafe'') 8888 (str ''anon''))
       [Resume [], Resume [Eof]]
     = ((init (str ''hazel.cafe'') 8888 (str ''anon''))
          \<lparr>reader := Some \<lparr>buffer = [], eof = True, limit = 2 ^ 16\<rparr>,
           writer := Some \<lparr>closing = False, closed = False, paused = False\<rparr>,
           effects := [Insert (connecting_line (str ''hazel.cafe'') 8888 @ str ''\<newline>''), See,
                       Insert (str ''[info] connected\<newline>''), See,
                       PrintExc (IncompleteReadError [])]\<rparr>,
        Done (Returned ()))"
  by (simp add: net_def net_start_def receive_loop_fresh open_connection_def
      receive_loop.simps recv_def readuntil_def MESSAGE_DELIMITER_def on_exception_def
      at_eof_def init_def log_def emit_def Let_def str_def)

section \<open>Stopping the client\<close>




text \<open>
  Claim C10, as the spec states it, at a stop request that arrives in the first call of
  \<open>update\<close>, before the task has taken its first step: the claim expects the handler to
  run and the task to end with \<open>AttributeError\<close>. \<open>CancelledError\<close> is thrown into a
  coroutine that has not started: no handler runs, nothing is logged, and the pump,
  awaiting the task, raises \<open>CancelledError\<close>.
\<close>

theorem stop_before_first_step_counterexample:
  "async_run (init (str ''hazel.cafe'') 8888 (str ''anon'')) [Stop] [([], [])]
     = (init (str ''hazel.cafe'') 8888 (str ''anon''), Raised CancelledError)"
  by (simp add: async_run_def cancel_def stop_def)

text \<open>
  Claim C10, amended. When the task has taken its first step and waits in its first
  \<open>open_connection\<close>, the writer still absent, and is then cancelled, the handler logs
  the "quitting" line and reads \<open>self.writer.is_closing\<close> on \<open>None\<close>: the task ends with
  \<open>AttributeError\<close>, without closing anything and without waiting in \<open>wait_closed\<close>,
  and the pump, awaiting the task, raises that error. When the stop request arrives
  before the first step of the task, in the call of \<open>update\<close> before the loop or in the
  first one inside it, the task ends with \<open>CancelledError\<close> and no handler runs.
\<close>

theorem stop_before_connected:
  assumes "writer c = None"
  shows "resume h p stop (c, Connecting)
           = (log (str ''[info] quitting...'') True c, Done (Raised AttributeError))
    \<and> net h p c (stop # rest)
           = (log (str ''[info] quitting...'') True (log (connecting_line h p) True c),
              Done (Raised AttributeError))
    \<and> async_run c [] (([], []) # replicate k ([], []) @ ([Stop], ws) # ticks)
           = (log (str ''[info] quitting...'') True
                (log (connecting_line (host c) (port c)) True c),
              Raised AttributeError)
    \<and> async_run c [Stop] (([], ws) # ticks) = (c, Raised CancelledError)
    \<and> async_run c [] (([Stop], ws) # ticks) = (c, Raised CancelledError)"
proof -
  have 1: "resume h p stop (c, Connecting)
             = (log (str ''[info] quitting...'') True c, Done (Raised AttributeError))"
    if "writer c = None" for h p c
    using that by (simp add: stop_def on_exception_def)
  have 2: "net h p c (stop # rest)
             = (log (str ''[info] quitting...'') True (log (connecting_line h p) True c),
                Done (Raised AttributeError))"
    using assms by (simp add: net_def net_start_def 1)
  have 3: "async_run c [] (([], []) # replicate k ([], []) @ ([Stop], ws) # ticks)
             = (log (str ''[info] quitting...'') True
                  (log (connecting_line (host c) (port c)) True c),
                Raised AttributeError)"
  proof -
    let ?c1 = "log (connecting_line (host c) (port c)) True c"
    have "async_run c [] (([], []) # replicate k ([], []) @ ([Stop], ws) # ticks)
            = pump (host c) (port c) (replicate k ([], []) @ ([Stop], ws) # ticks)
                (?c1, Connecting, [])"
      by (simp add: async_run_def net_start_def)
    also have "\<dots> = pump (host c) (port c) (([Stop], ws) # ticks) (?c1, Connecting, [])"
      by (rule pump_idle)
    also have "\<dots> = (log (str ''[info] quitting...'') True ?c1, Raised AttributeError)"
      using assms by (simp add: cancel_def 1)
    finally show ?thesis .
  qed
  have 4: "async_run c [Stop] (([], ws) # ticks) = (c, Raised CancelledError)"
    by (simp add: async_run_def cancel_def stop_def)
  have 5: "async_run c [] (([Stop], ws) # ticks) = (c, Raised CancelledError)"
    by (simp add: async_run_def cancel_def stop_def)
  from 1 [OF assms] 2 3 4 5 show ?thesis by blast
qed

theorem stop_before_connected_witness:
  "writer (init (str ''hazel.cafe'') 8888 (str ''anon'')) = None
   \<and> async_run (init (str ''hazel.cafe'') 8888 (str ''anon'')) []
        [([], []), ([], []), ([Stop], []), ([], [Resume []])]
     = ((init (str ''hazel.cafe'') 8888 (str ''anon''))
          \<lparr>effects := [Insert (connecting_line (str ''hazel.cafe'') 8888 @ str ''\<newline>''), See,
                       Insert (str ''[info] quitting...\<newline>''), See]\<rparr>,
        Raised AttributeError)"
  using stop_before_connected [of "init (str ''hazel.cafe'') 8888 (str ''anon'')"
      "str ''hazel.cafe''" 8888 "[]" 1 "[]" "[([], [Resume []])]"]
  by (simp add: init_def log_def emit_def Let_def str_def)

section \<open>What \<open>recv\<close> returns\<close>

text \<open>
  Claim C8, as the spec states it, with \<open>b'hi\nyo'\<close> in the buffer: the claim expects
  the frame without its delimiter, \<open>b'hi'\<close>. \<open>recv\<close> returns \<open>b'hi\n'\<close>, the
  delimiter included.
\<close>

theorem recv_keeps_delimiter_counterexample:
  "snd (recv (fold deliver [Data (bytes_lit ''hi\<newline>yo'')]
          (open_connection (init (str ''hazel.cafe'') 8888 (str ''anon'')))))
     = Returned [0x68, 0x69, 0x0A]"
  by (simp add: recv_def readuntil_def MESSAGE_DELIMITER_def open_connection_def init_def bytes_lit_def)

text \<open>
  Claim C8, amended. Whenever \<open>recv\<close> returns, it returns one full frame with its
  trailing delimiter: bytes free of the delimiter followed by the delimiter, taken from
  the front of the buffer, the rest of which stays buffered. A partial frame is never
  returned, since what is returned ends with the delimiter.
\<close>

theorem recv_returns_frame_with_delimiter:
  assumes "recv c = (c', Returned data)"
  shows "\<exists>r r' frame. reader c = Some r \<and> reader c' = Some r'
           \<and> data = frame @ MESSAGE_DELIMITER \<and> 0x0A \<notin> set frame
           \<and> buffer r = data @ buffer r'"
proof -
  from assms obtain r r' where r: "reader c = Some r" "reader c' = Some r'"
    and ru: "readuntil MESSAGE_DELIMITER r = (r', Returned data)"
    by (auto simp: recv_def split: option.splits prod.splits)
  from ru obtain isep where f: "find (buffer r) MESSAGE_DELIMITER = Some isep"
    and r': "r' = r\<lparr>buffer := drop (isep + length MESSAGE_DELIMITER) (buffer r)\<rparr>"
    and d: "data = take (isep + length MESSAGE_DELIMITER) (buffer r)"
    by (rule readuntil_Returned)
  from f have i: "isep < length (buffer r)" "buffer r ! isep = 0x0A"
    "0x0A \<notin> set (take isep (buffer r))"
    using find_byte [of "buffer r" "0x0A" isep] by (simp_all add: MESSAGE_DELIMITER_def)
  from d i(1,2) have "data = take isep (buffer r) @ MESSAGE_DELIMITER"
    by (simp add: MESSAGE_DELIMITER_def take_Suc_conv_app_nth)
  moreover from d r' have "buffer r = data @ buffer r'" by simp
  ultimately show ?thesis using r i(3) by blast
qed

theorem recv_returns_frame_with_delimiter_witness:
  "recv (fold deliver [Data (bytes_lit ''hi\<newline>yo'')]
          (open_connection (init (str ''hazel.cafe'') 8888 (str ''anon''))))
     = ((init (str ''hazel.cafe'') 8888 (str ''anon''))
          \<lparr>reader := Some \<lparr>buffer = bytes_lit ''yo'', eof = False, limit = 2 ^ 16\<rparr>,
           writer := Some \<lparr>closing = False, closed = False, paused = False\<rparr>\<rparr>,
        Returned (bytes_lit ''hi\<newline>''))
   \<and> (\<exists>r r' frame.
        reader (fold deliver [Data (bytes_lit ''hi\<newline>yo'')]
          (open_connection (init (str ''hazel.cafe'') 8888 (str ''anon'')))) = Some r
        \<and> reader ((init (str ''hazel.cafe'') 8888 (str ''anon''))
          \<lparr>reader := Some \<lparr>buffer = bytes_lit ''yo'', eof = False, limit = 2 ^ 16\<rparr>,
           writer := Some \<lparr>closing = False, closed = False, paused = False\<rparr>\<rparr>) = Some r'
        \<and> bytes_lit ''hi\<newline>'' = frame @ MESSAGE_DELIMITER \<and> 0x0A \<notin> set frame
        \<and> buffer r = bytes_lit ''hi\<newline>'' @ buffer r')"
proof -
  have h: "recv (fold deliver [Data (bytes_lit ''hi\<newline>yo'')]
          (open_connection (init (str ''hazel.cafe'') 8888 (str ''anon''))))
     = ((init (str ''hazel.cafe'') 8888 (str ''anon''))
          \<lparr>reader := Some \<lparr>buffer = bytes_lit ''yo'', eof = False, limit = 2 ^ 16\<rparr>,
           writer := Some \<lparr>closing = False, closed = False, paused = False\<rparr>\<rparr>,
        Returned (bytes_lit ''hi\<newline>''))"
    by (simp add: recv_def readuntil_def MESSAGE_DELIMITER_def open_connection_def init_def
        bytes_lit_def)
  from recv_returns_frame_with_delimiter [OF h] h show ?thesis by blast
qed

section \<open>Submitting a message\<close>

text \<open>
  Claim C4. With a live writer, the text of the entry widget is stripped of the
  whitespace at both ends. If nothing is left, no send task is created. Otherwise one
  send task is created, for the UTF-8 encoding of the name, a colon and a space, the
  stripped text and a newline, and that task hands exactly these bytes to the writer; it
  then returns, or stays in \<open>drain\<close> when the transport has paused writing.
\<close>

theorem entry_binding_sends:
  assumes "writer c = Some w" and "\<not> closing w"
  shows "(\<exists>l r. entry c = l @ strip (entry c) @ r
            \<and> (\<forall>x\<in>set l. isspace x) \<and> (\<forall>x\<in>set r. isspace x)
            \<and> (strip (entry c) \<noteq> [] \<longrightarrow>
                 \<not> isspace (hd (strip (entry c))) \<and> \<not> isspace (last (strip (entry c)))))
    \<and> (strip (entry c) = [] \<longrightarrow>
          entry_binding c = (emit AfterIdleEntryDelete c, Returned (str ''break'')))
    \<and> (strip (entry c) \<noteq> [] \<longrightarrow>
        encode (name c @ str '': '' @ strip (entry c) @ str ''\<newline>'') = Some data \<longrightarrow>
          entry_binding c
            = (emit AfterIdleEntryDelete (emit (CreateSendTask data) c), Returned (str ''break''))
          \<and> send data (fst (entry_binding c))
            = (emit (WriterWrite data) (fst (entry_binding c)),
               if paused w then Pending else Returned ()))"
  using assms strip_spec [of "entry c"]
  by (simp add: entry_binding_def send_def Let_def)

theorem entry_binding_sends_witness:
  "entry_binding ((open_connection (init (str ''hazel.cafe'') 8888 (str ''alice'')))
        \<lparr>entry := str ''  hello world  ''\<rparr>)
     = (emit AfterIdleEntryDelete (emit (CreateSendTask (bytes_lit ''alice: hello world\<newline>''))
          ((open_connection (init (str ''hazel.cafe'') 8888 (str ''alice'')))
             \<lparr>entry := str ''  hello world  ''\<rparr>)), Returned (str ''break''))
   \<and> entry_binding ((open_connection (init (str ''hazel.cafe'') 8888 (str ''alice'')))
        \<lparr>entry := str ''   ''\<rparr>)
     = (emit AfterIdleEntryDelete ((open_connection (init (str ''hazel.cafe'') 8888 (str ''alice'')))
        \<lparr>entry := str ''   ''\<rparr>), Returned (str ''break''))"
  using entry_binding_sends [of
      "(open_connection (init (str ''hazel.cafe'') 8888 (str ''alice'')))
         \<lparr>entry := str ''  hello world  ''\<rparr>" "\<lparr>closing = False, closed = False, paused = False\<rparr>"
      "bytes_lit ''alice: hello world\<newline>''"]
    entry_binding_sends [of
      "(open_connection (init (str ''hazel.cafe'') 8888 (str ''alice'')))
         \<lparr>entry := str ''   ''\<rparr>" "\<lparr>closing = False, closed = False, paused = False\<rparr>" "[]"]
  by (simp add: open_connection_def init_def str_def bytes_lit_def encode_cp_def strip_def
      isspace_def)

section \<open>An inbound line\<close>

text \<open>
  Claim C3. A frame that decodes is handled as follows. With the window unfocused, the
  mention sound is played once, and the message sound not at all, when the line contains
  the at sign followed by the client's name; otherwise the message sound is played once.
  With the window focused no sound is played. In every case the line is then logged.
\<close>

theorem handle_data_notifies:
  assumes "decode data = Some text" and "mention_str c = str ''@'' @ name c"
  shows "\<exists>c'. handle_data data c = Inr c' \<and> effects c' = effects c @
       (if focused c then []
        else if (\<exists>pre post. butlast text = pre @ str ''@'' @ name c @ post)
             then [Playsound (str ''./assets/mention.wav'')]
             else [Playsound (str ''./assets/message.wav'')])
       @ [Insert (butlast text @ str ''\<newline>''), See]"
  using assms by (simp add: handle_data_def Let_def contains_iff)

theorem handle_data_notifies_witness:
  "handle_data (bytes_lit ''bob: hi @alice\<newline>'') (init (str ''hazel.cafe'') 8888 (str ''alice''))
     = Inr ((init (str ''hazel.cafe'') 8888 (str ''alice''))
         \<lparr>effects := [Playsound (str ''./assets/mention.wav''),
                     Insert (str ''bob: hi @alice\<newline>''), See]\<rparr>)
   \<and> (\<exists>c'. handle_data (bytes_lit ''bob: hi @alice\<newline>'') (init (str ''hazel.cafe'') 8888 (str ''alice'')) = Inr c'
        \<and> effects c' = [Playsound (str ''./assets/mention.wav''),
                     Insert (str ''bob: hi @alice\<newline>''), See])"
proof -
  have 1: "decode (bytes_lit ''bob: hi @alice\<newline>'') = Some (str ''bob: hi @alice\<newline>'')"
    by (simp add: decode.simps decode_cp_def bytes_lit_def str_def)
  have 2: "mention_str (init (str ''hazel.cafe'') 8888 (str ''alice''))
             = str ''@'' @ name (init (str ''hazel.cafe'') 8888 (str ''alice''))"
    by (simp add: init_def)
  have 3: "handle_data (bytes_lit ''bob: hi @alice\<newline>'') (init (str ''hazel.cafe'') 8888 (str ''alice''))
     = Inr ((init (str ''hazel.cafe'') 8888 (str ''alice''))
         \<lparr>effects := [Playsound (str ''./assets/mention.wav''),
                     Insert (str ''bob: hi @alice\<newline>''), See]\<rparr>)"
    by (simp add: handle_data_def 1 init_def str_def log_def emit_def Let_def)
  from handle_data_notifies [OF 1 2] 3 show ?thesis
    by (simp add: init_def)
qed

text \<open>
  Claim C7. A frame that ends with the delimiter and decodes gives a line that ends with
  the newline character; the logged text is that line without this last character, and
  it is the decoding of the bytes before the delimiter, unchanged.
\<close>

theorem handle_data_strips_delimiter:
  assumes "decode (frame @ MESSAGE_DELIMITER) = Some text"
  shows "\<exists>message c'. decode frame = Some message \<and> text = message @ str ''\<newline>''
           \<and> handle_data (frame @ MESSAGE_DELIMITER) c = Inr c'
           \<and> inserted (effects c') = inserted (effects c) @ [message @ str ''\<newline>'']"
proof -
  from assms obtain m where m: "decode frame = Some m" "text = m @ [10]"
    using decode_snoc_newline [of frame "text"] by (auto simp: MESSAGE_DELIMITER_def)
  have "handle_data (frame @ MESSAGE_DELIMITER) c
          = Inr (log m True (if \<not> focused c then
                      (if contains m (mention_str c)
                       then emit (Playsound (str ''./assets/mention.wav'')) c
                       else emit (Playsound (str ''./assets/message.wav'')) c)
                    else c))"
    using assms m by (simp add: handle_data_def Let_def)
  moreover have "str ''\<newline>'' = [10]" by (simp add: str_def)
  ultimately show ?thesis using m by auto
qed

theorem handle_data_strips_delimiter_witness:
  "decode (bytes_lit '' hi  there '' @ MESSAGE_DELIMITER) = Some (str '' hi  there \<newline>'')
   \<and> (\<exists>message c'. decode (bytes_lit '' hi  there '') = Some message
        \<and> str '' hi  there \<newline>'' = message @ str ''\<newline>''
        \<and> handle_data (bytes_lit '' hi  there '' @ MESSAGE_DELIMITER)
             (init (str ''hazel.cafe'') 8888 (str ''anon'')) = Inr c'
        \<and> inserted (effects c')
             = inserted (effects (init (str ''hazel.cafe'') 8888 (str ''anon'')))
               @ [message @ str ''\<newline>''])"
proof -
  have h: "decode (bytes_lit '' hi  there '' @ MESSAGE_DELIMITER) = Some (str '' hi  there \<newline>'')"
    by (simp add: decode.simps decode_cp_def bytes_lit_def str_def MESSAGE_DELIMITER_def)
  from handle_data_strips_delimiter [OF h] h show ?thesis by blast
qed

section \<open>Frames that are not text\<close>

text \<open>
  Claim C6, as the spec states it, at the frame \<open>b'\xff\n'\<close>: the claim expects it to be
  accepted as text. Decoding raises \<open>UnicodeDecodeError\<close>; the catch-all handler prints
  it and the task is done.
\<close>

theorem invalid_utf8_frame_counterexample:
  "handle_data [0xFF, 0x0A] (init (str ''hazel.cafe'') 8888 (str ''anon''))
     = Inl UnicodeDecodeError
   \<and> net (str ''hazel.cafe'') 8888 (init (str ''hazel.cafe'') 8888 (str ''anon''))
       [Resume [], Resume [Data [0xFF, 0x0A]]]
     = ((init (str ''hazel.cafe'') 8888 (str ''anon''))
          \<lparr>reader := Some \<lparr>buffer = [], eof = False, limit = 2 ^ 16\<rparr>,
           writer := Some \<lparr>closing = False, closed = False, paused = False\<rparr>,
           effects := [Insert (connecting_line (str ''hazel.cafe'') 8888 @ str ''\<newline>''), See,
                       Insert (str ''[info] connected\<newline>''), See,
                       PrintExc UnicodeDecodeError]\<rparr>,
        Done (Returned ()))"
  by (simp add: net_def net_start_def receive_loop_fresh open_connection_def
      receive_loop.simps recv_def readuntil_def MESSAGE_DELIMITER_def on_exception_def
      at_eof_def init_def log_def emit_def Let_def str_def handle_data_def
      decode.simps decode_cp_def)

text \<open>
  Claim C6, amended. The frames accepted as text are exactly the UTF-8 encodings of
  strings. Any other frame makes \<open>decode\<close> raise \<open>UnicodeDecodeError\<close>, which the
  catch-all handler prints before the task ends.
\<close>

theorem handle_data_accepts_utf8:
  "(if (\<exists>s. encode s = Some data)
    then (\<exists>c'. handle_data data c = Inr c')
    else handle_data data c = Inl UnicodeDecodeError)
   \<and> on_exception UnicodeDecodeError c = (emit (PrintExc UnicodeDecodeError) c, Done (Returned ()))"
proof -
  have "handle_data data c = Inl UnicodeDecodeError" if "\<not> (\<exists>s. encode s = Some data)"
  proof -
    from that have "decode data = None"
      using decode_Some_iff [of data] by (cases "decode data") auto
    then show ?thesis by (simp add: handle_data_def)
  qed
  moreover have "\<exists>c'. handle_data data c = Inr c'" if "\<exists>s. encode s = Some data"
  proof -
    from that obtain s where "decode data = Some s"
      using decode_Some_iff [of data] by blast
    then show ?thesis by (simp add: handle_data_def Let_def)
  qed
  moreover have "on_exception UnicodeDecodeError c
      = (emit (PrintExc UnicodeDecodeError) c, Done (Returned ()))"
    by (simp add: on_exception_def)
  ultimately show ?thesis by simp
qed

theorem handle_data_accepts_utf8_witness:
  "(\<exists>s. encode s = Some (bytes_lit ''h\<newline>''))
   \<and> (\<exists>c'. handle_data (bytes_lit ''h\<newline>'') (init (str ''hazel.cafe'') 8888 (str ''anon'')) = Inr c')
   \<and> \<not> (\<exists>s. encode s = Some [0xFF, 0x0A])
   \<and> handle_data [0xFF, 0x0A] (init (str ''hazel.cafe'') 8888 (str ''anon''))
       = Inl UnicodeDecodeError"
proof -
  have "encode (str ''h\<newline>'') = Some (bytes_lit ''h\<newline>'')"
    by (simp add: str_def bytes_lit_def encode_cp_def)
  then have 1: "\<exists>s. encode s = Some (bytes_lit ''h\<newline>'')" ..
  have "decode [0xFF, 0x0A] = None" by (simp add: decode.simps decode_cp_def)
  then have 2: "\<not> (\<exists>s. encode s = Some [0xFF, 0x0A])"
    using decode_Some_iff [of "[0xFF, 0x0A]"] by simp
  from 1 2
    handle_data_accepts_utf8 [of "bytes_lit ''h\<newline>''" "init (str ''hazel.cafe'') 8888 (str ''anon'')"]
    handle_data_accepts_utf8 [of "[0xFF, 0x0A]" "init (str ''hazel.cafe'') 8888 (str ''anon'')"]
  show ?thesis by (simp split: if_splits)
qed

end
